theory Spec2Isabelle
  imports Complex_Main
begin

section \<open>The MP4 target resolution (App.tsx, lines 40-58)\<close>

text \<open>
  \<^verbatim>\<open>img.width\<close> and \<^verbatim>\<open>img.height\<close> are unsigned integers (the natural size of the decoded
  image), so the inputs are \<^typ>\<open>nat\<close>. The quotient passed to \<^verbatim>\<open>Math.round\<close> is a JavaScript
  number; it is modelled by the real quotient. \<^verbatim>\<open>Math.round\<close> rounds to the nearest integer,
  a tie going up. The divisor is always above 1280 where the division is reached.
\<close>

definition MAX_SIZE :: nat where
  "MAX_SIZE = 1280"

definition Math_round :: "real \<Rightarrow> int" where
  "Math_round x = \<lfloor>x + 1 / 2\<rfloor>"

text \<open>Step 1 of the source: fit the long edge into \<^const>\<open>MAX_SIZE\<close>.\<close>

definition resize_long_edge :: "nat \<Rightarrow> nat \<Rightarrow> nat \<times> nat" where
  "resize_long_edge width height =
     (if width > MAX_SIZE \<or> height > MAX_SIZE then
        (if width > height
         then (MAX_SIZE, nat (Math_round (real (height * MAX_SIZE) / real width)))
         else (nat (Math_round (real (width * MAX_SIZE) / real height)), MAX_SIZE))
      else (width, height))"

text \<open>Step 2 of the source: \<^verbatim>\<open>x % 2 === 0 ? x : x - 1\<close>.\<close>

definition force_even :: "nat \<Rightarrow> nat" where
  "force_even x = (if x mod 2 = 0 then x else x - 1)"

definition mp4_dimensions :: "nat \<Rightarrow> nat \<Rightarrow> nat \<times> nat" where
  "mp4_dimensions w h =
     (case resize_long_edge w h of (width, height) \<Rightarrow> (force_even width, force_even height))"

text \<open>
  The reference the output is compared with: the one scale factor that brings the longer
  edge down to \<^const>\<open>MAX_SIZE\<close> and never enlarges.
\<close>

definition exact_scale :: "nat \<Rightarrow> nat \<Rightarrow> real" where
  "exact_scale w h = min 1 (real MAX_SIZE / real (max w h))"


section \<open>The display name (App.tsx, lines 108 and 139)\<close>

text \<open>
  \<^verbatim>\<open>file.name.replace(/\.[^/.]+$/, "")\<close>. The pattern is a dot, then one or more characters
  that are neither a slash nor a dot, then the end of the string. The regular expression
  engine tries the start positions from left to right and replaces the first match; a match
  reaches the end of the string, so the replacement by the empty string cuts the rest off.
\<close>

definition ext_char :: "char \<Rightarrow> bool" where
  "ext_char c = (c \<noteq> CHR ''/'' \<and> c \<noteq> CHR ''.'')"

fun ext_regex_matches :: "string \<Rightarrow> bool" where
  "ext_regex_matches [] = False"
| "ext_regex_matches (c # cs) = (c = CHR ''.'' \<and> cs \<noteq> [] \<and> list_all ext_char cs)"

fun replace_ext :: "string \<Rightarrow> string" where
  "replace_ext [] = []"
| "replace_ext (c # cs) = (if ext_regex_matches (c # cs) then [] else c # replace_ext cs)"

text \<open>
  The same in the words of the specification: the final extension is what follows the last
  dot of the name, when that is at least one character and holds no path separator; stripping
  it removes it together with its dot. A name without such an extension stays as it is.
\<close>

definition last_dot_split :: "string \<Rightarrow> (string \<times> string) option" where
  "last_dot_split s =
     (if CHR ''.'' \<in> set s
      then Some (rev (tl (dropWhile (\<lambda>c. c \<noteq> CHR ''.'') (rev s))),
                 rev (takeWhile (\<lambda>c. c \<noteq> CHR ''.'') (rev s)))
      else None)"

definition strip_final_extension :: "string \<Rightarrow> string" where
  "strip_final_extension s =
     (case last_dot_split s of
        None \<Rightarrow> s
      | Some (base, ext) \<Rightarrow> if ext \<noteq> [] \<and> CHR ''/'' \<notin> set ext then base else s)"


section \<open>Files, results, promises and the browser\<close>

text \<open>The record of the source; its field \<^verbatim>\<open>id\<close> is \<open>id_token\<close> here.\<close>

record ConvertedVideo =
  id_token :: string
  name :: string
  url :: string

text \<open>
  What the browser makes of a file's bytes when it is set as the source of an image: the
  \<^verbatim>\<open>load\<close> event with the natural size, or the \<^verbatim>\<open>error\<close> event.
\<close>

datatype decode_result = Image nat nat | Undecodable

record File =
  file_name :: string
  image_data :: decode_result

datatype error = ErrorEvent | Exception string

datatype 'a promise = Resolved 'a | Rejected error | Pending

fun result_of :: "'a promise \<Rightarrow> 'a option" where
  "result_of (Resolved v) = Some v"
| "result_of (Rejected e) = None"
| "result_of Pending = None"

text \<open>The content of a canvas: nothing, or an image drawn at a size.\<close>

datatype pixels = Blank | Drawn File nat nat

record canvas =
  canvas_width :: nat
  canvas_height :: nat
  content :: pixels

definition new_canvas :: "nat \<Rightarrow> nat \<Rightarrow> canvas" where
  "new_canvas w h = \<lparr>canvas_width = w, canvas_height = h, content = Blank\<rparr>"

definition drawImage :: "canvas \<Rightarrow> File \<Rightarrow> nat \<Rightarrow> nat \<Rightarrow> canvas" where
  "drawImage c img w h = c\<lparr>content := Drawn img w h\<rparr>"

text \<open>A video frame is a snapshot of the canvas it is built from, with a timestamp.\<close>

record VideoFrame =
  frame_pixels :: pixels
  timestamp :: nat

definition new_VideoFrame :: "canvas \<Rightarrow> nat \<Rightarrow> VideoFrame" where
  "new_VideoFrame c ts = \<lparr>frame_pixels = content c, timestamp = ts\<rparr>"

text \<open>The calls into the browser and the muxing library, with their arguments.\<close>

datatype api_call =
    NewMuxer nat nat
  | NewVideoEncoder
  | Configure nat nat nat nat
  | NewOffscreenCanvas nat nat
  | GetContext2d
  | DrawImage File nat nat
  | NewVideoFrame nat
  | Encode VideoFrame bool
  | CloseFrame VideoFrame
  | Flush
  | Finalize
  | NewBlob string
  | CreateObjectURL
  | SetCanvasSize nat nat
  | CaptureStream nat
  | NewMediaRecorder string
  | RecorderStart
  | SetTimeout nat
  | RecorderStop

text \<open>
  The browser decides which call throws (for \<^const>\<open>Flush\<close>: whether the awaited promise
  rejects, which is also what an error reported to the encoder's error callback leads to),
  and supplies, for the conversion of a file, the random token and the object URL.
\<close>

record browser =
  throws :: "api_call \<Rightarrow> error option"
  random_token :: "File \<Rightarrow> string"
  blob_url :: "File \<Rightarrow> string"

text \<open>Straight-line code: the calls run in order until one throws; the trace keeps them.\<close>

fun run :: "(api_call \<Rightarrow> error option) \<Rightarrow> api_call list \<Rightarrow> api_call list \<times> error option" where
  "run t [] = ([], None)"
| "run t (c # cs) =
     (case t c of
        Some e \<Rightarrow> ([c], Some e)
      | None \<Rightarrow> (case run t cs of (tr, r) \<Rightarrow> (c # tr, r)))"

text \<open>The calls of a trace that hand a frame to the encoder.\<close>

fun is_Encode :: "api_call \<Rightarrow> bool" where
  "is_Encode (Encode fr key) = True"
| "is_Encode c = False"


section \<open>convertImageToMP4 (App.tsx, lines 33-117)\<close>

text \<open>
  The calls inside the \<^verbatim>\<open>try\<close> block of \<^verbatim>\<open>img.onload\<close>, in source order. Both frames are
  built from the same off-screen canvas, after the one \<^verbatim>\<open>drawImage\<close>.
\<close>

definition mp4_calls :: "File \<Rightarrow> nat \<Rightarrow> nat \<Rightarrow> api_call list" where
  "mp4_calls img width height =
     (let offscreen = drawImage (new_canvas width height) img width height;
          frame = new_VideoFrame offscreen 0;
          frameEnd = new_VideoFrame offscreen 1000000
      in [NewMuxer width height,
          NewVideoEncoder,
          Configure width height 2000000 1,
          NewOffscreenCanvas width height,
          GetContext2d,
          DrawImage img width height,
          NewVideoFrame 0,
          Encode frame True,
          CloseFrame frame,
          NewVideoFrame 1000000,
          Encode frameEnd False,
          CloseFrame frameEnd,
          Flush,
          Finalize,
          NewBlob ''video/mp4'',
          CreateObjectURL])"

text \<open>
  \<^verbatim>\<open>img.onerror\<close> rejects with the event; an exception inside \<^verbatim>\<open>img.onload\<close> is caught
  and rejects; otherwise the promise resolves with the new record.
\<close>

definition convertImageToMP4 :: "browser \<Rightarrow> File \<Rightarrow> api_call list \<times> ConvertedVideo promise" where
  "convertImageToMP4 b f =
     (case image_data f of
        Undecodable \<Rightarrow> ([], Rejected ErrorEvent)
      | Image w h \<Rightarrow>
          (case mp4_dimensions w h of (width, height) \<Rightarrow>
            (case run (throws b) (mp4_calls f width height) of
               (tr, Some err) \<Rightarrow> (tr, Rejected err)
             | (tr, None) \<Rightarrow>
                 (tr, Resolved \<lparr>id_token = random_token b f,
                                name = replace_ext (file_name f) @ ''.mp4'',
                                url = blob_url b f\<rparr>))))"


section \<open>convertImageToVideo (App.tsx, lines 119-148)\<close>

text \<open>
  The calls of \<^verbatim>\<open>img.onload\<close>, then the one of the timer callback (\<^verbatim>\<open>recorder.stop()\<close>), then
  those of \<^verbatim>\<open>recorder.onstop\<close>. The canvas is the one of the page, at the natural size of the
  image.
\<close>

definition webm_calls :: "File \<Rightarrow> nat \<Rightarrow> nat \<Rightarrow> api_call list" where
  "webm_calls img w h =
     [SetCanvasSize w h,
      GetContext2d,
      DrawImage img w h,
      CaptureStream 1,
      NewMediaRecorder ''video/webm'',
      RecorderStart,
      SetTimeout 1000,
      RecorderStop,
      NewBlob ''video/webm'',
      CreateObjectURL]"

text \<open>
  The executor takes \<^verbatim>\<open>resolve\<close> only: there is no \<^verbatim>\<open>img.onerror\<close>, and an exception in
  a handler is caught by nobody, so the promise is then never settled.
\<close>

definition convertImageToVideo :: "browser \<Rightarrow> File \<Rightarrow> api_call list \<times> ConvertedVideo promise" where
  "convertImageToVideo b f =
     (case image_data f of
        Undecodable \<Rightarrow> ([], Pending)
      | Image w h \<Rightarrow>
          (case run (throws b) (webm_calls f w h) of
             (tr, Some err) \<Rightarrow> (tr, Pending)
           | (tr, None) \<Rightarrow>
               (tr, Resolved \<lparr>id_token = random_token b f,
                              name = replace_ext (file_name f) @ ''.webm'',
                              url = blob_url b f\<rparr>)))"


section \<open>handleFileUpload (App.tsx, lines 16-31)\<close>

record app_state =
  videos :: "ConvertedVideo list"
  isProcessing :: bool

text \<open>
  The \<^verbatim>\<open>for\<close> loop with its \<^verbatim>\<open>await\<close>: a rejected conversion throws out of the loop, a
  conversion that never settles suspends it for good. The local array \<^verbatim>\<open>newVideos\<close> is
  returned as it stands when the loop ends.
\<close>

fun convert_loop ::
  "(File \<Rightarrow> ConvertedVideo promise) \<Rightarrow> File list \<Rightarrow> ConvertedVideo list \<Rightarrow>
     ConvertedVideo list \<times> unit promise" where
  "convert_loop conv [] newVideos = (newVideos, Resolved ())"
| "convert_loop conv (f # fs) newVideos =
     (case conv f of
        Resolved video \<Rightarrow> convert_loop conv fs (newVideos @ [video])
      | Rejected err \<Rightarrow> (newVideos, Rejected err)
      | Pending \<Rightarrow> (newVideos, Pending))"

text \<open>
  The handler takes the per-file conversion (\<^verbatim>\<open>convertImageToMP4\<close> in App.tsx,
  \<^verbatim>\<open>convertImageToVideo\<close> in the other variant of the component), the file list of the
  event (\<open>None\<close> for \<^verbatim>\<open>null\<close>) and the state. It returns the state, the local array and
  the outcome of its own promise.
\<close>

definition handleFileUpload ::
  "(File \<Rightarrow> ConvertedVideo promise) \<Rightarrow> File list option \<Rightarrow> app_state \<Rightarrow>
     app_state \<times> ConvertedVideo list \<times> unit promise" where
  "handleFileUpload conv files st =
     (case files of
        None \<Rightarrow> (st, [], Resolved ())
      | Some fs \<Rightarrow>
          (let st1 = st\<lparr>isProcessing := True\<rparr>
           in case convert_loop conv fs [] of
                (newVideos, Resolved u) \<Rightarrow>
                  (st1\<lparr>videos := newVideos @ videos st1, isProcessing := False\<rparr>,
                   newVideos, Resolved ())
              | (newVideos, Rejected err) \<Rightarrow> (st1, newVideos, Rejected err)
              | (newVideos, Pending) \<Rightarrow> (st1, newVideos, Pending)))"

definition handleFileUpload_mp4 ::
  "browser \<Rightarrow> File list option \<Rightarrow> app_state \<Rightarrow> app_state \<times> ConvertedVideo list \<times> unit promise" where
  "handleFileUpload_mp4 b = handleFileUpload (\<lambda>f. snd (convertImageToMP4 b f))"

definition handleFileUpload_webm ::
  "browser \<Rightarrow> File list option \<Rightarrow> app_state \<Rightarrow> app_state \<times> ConvertedVideo list \<times> unit promise" where
  "handleFileUpload_webm b = handleFileUpload (\<lambda>f. snd (convertImageToVideo b f))"

text \<open>
  A browser in which no call throws, three files, the records their conversions give there,
  and a state with one earlier entry: the concrete inputs of the examples below.
\<close>

definition quiet_browser :: browser where
  "quiet_browser =
     \<lparr>throws = (\<lambda>c. None),
      random_token = (\<lambda>f. ''k3j9x0q2a''),
      blob_url = (\<lambda>f. ''blob:'' @ file_name f)\<rparr>"

definition photo :: File where
  "photo = \<lparr>file_name = ''photo.png'', image_data = Image 4000 3000\<rparr>"

definition broken :: File where
  "broken = \<lparr>file_name = ''broken.png'', image_data = Undecodable\<rparr>"

definition pixel :: File where
  "pixel = \<lparr>file_name = ''pixel.png'', image_data = Image 1 1\<rparr>"

definition photo_mp4 :: ConvertedVideo where
  "photo_mp4 = \<lparr>id_token = ''k3j9x0q2a'', name = ''photo.mp4'', url = ''blob:photo.png''\<rparr>"

definition photo_webm :: ConvertedVideo where
  "photo_webm = \<lparr>id_token = ''k3j9x0q2a'', name = ''photo.webm'', url = ''blob:photo.png''\<rparr>"

definition pixel_mp4 :: ConvertedVideo where
  "pixel_mp4 = \<lparr>id_token = ''k3j9x0q2a'', name = ''pixel.mp4'', url = ''blob:pixel.png''\<rparr>"

definition gallery :: app_state where
  "gallery =
     \<lparr>videos = [\<lparr>id_token = ''p0o9i8u7y'', name = ''earlier.mp4'', url = ''blob:earlier.png''\<rparr>],
      isProcessing = False\<rparr>"

text \<open>
  A browser whose encoder does not support the configuration: \<^verbatim>\<open>encoder.configure\<close> throws,
  every other call returns.
\<close>

fun configure_throws :: "api_call \<Rightarrow> error option" where
  "configure_throws (Configure w h bitrate framerate) = Some (Exception ''NotSupportedError'')"
| "configure_throws c = None"

definition no_avc_browser :: browser where
  "no_avc_browser = quiet_browser\<lparr>throws := configure_throws\<rparr>"


section \<open>Properties of the target resolution\<close>

lemma Math_round_lower: "x - 1 / 2 < real_of_int (Math_round x)"
  unfolding Math_round_def by linarith

lemma Math_round_upper: "real_of_int (Math_round x) \<le> x + 1 / 2"
  unfolding Math_round_def by linarith

lemma Math_round_nonneg: "0 \<le> x \<Longrightarrow> 0 \<le> Math_round x"
  unfolding Math_round_def by simp

lemma Math_round_le_nat:
  assumes "x \<le> real n"
  shows "Math_round x \<le> int n"
proof -
  from assms have "x + 1 / 2 < real_of_int (int n + 1)" by simp
  then have "\<lfloor>x + 1 / 2\<rfloor> < int n + 1" using floor_less_iff by blast
  then show ?thesis unfolding Math_round_def by simp
qed

lemma scaled_le:
  assumes "a \<le> b" "m < b"
  shows "real (a * m) / real b \<le> real a"
proof -
  have "a * m \<le> a * b" using assms by simp
  then have "real (a * m) \<le> real a * real b"
    by (metis of_nat_le_iff of_nat_mult)
  moreover have "0 < real b" using assms by simp
  ultimately show ?thesis by (simp add: pos_divide_le_eq)
qed

lemma scaled_le_max:
  assumes "a \<le> b" "0 < b"
  shows "real (a * m) / real b \<le> real m"
proof -
  have "a * m \<le> m * b" using assms by (simp add: mult.commute)
  then have "real (a * m) \<le> real m * real b"
    by (metis of_nat_le_iff of_nat_mult)
  moreover have "0 < real b" using assms by simp
  ultimately show ?thesis by (simp add: pos_divide_le_eq)
qed

lemma force_even_even: "even (force_even n)"
  unfolding force_even_def by presburger

lemma force_even_le: "force_even n \<le> n"
  unfolding force_even_def by simp

lemma force_even_ge: "n \<le> force_even n + 1"
  unfolding force_even_def by simp

lemma force_even_id: "even n \<Longrightarrow> force_even n = n"
  unfolding force_even_def by presburger

lemma resize_no_enlarge:
  "fst (resize_long_edge w h) \<le> w \<and> snd (resize_long_edge w h) \<le> h"
proof (cases "w > MAX_SIZE \<or> h > MAX_SIZE")
  case False
  then show ?thesis by (simp add: resize_long_edge_def)
next
  case big: True
  show ?thesis
  proof (cases "w > h")
    case True
    with big have wbig: "MAX_SIZE < w" by auto
    have "Math_round (real (h * MAX_SIZE) / real w) \<le> int h"
      using True wbig by (intro Math_round_le_nat scaled_le) auto
    then show ?thesis using big True wbig by (simp add: resize_long_edge_def)
  next
    case False
    with big have hbig: "MAX_SIZE < h" by auto
    have "Math_round (real (w * MAX_SIZE) / real h) \<le> int w"
      using False hbig by (intro Math_round_le_nat scaled_le) auto
    then show ?thesis using big False hbig by (simp add: resize_long_edge_def)
  qed
qed

lemma resize_bounded:
  "fst (resize_long_edge w h) \<le> MAX_SIZE \<and> snd (resize_long_edge w h) \<le> MAX_SIZE"
proof (cases "w > MAX_SIZE \<or> h > MAX_SIZE")
  case False
  then show ?thesis by (simp add: resize_long_edge_def)
next
  case big: True
  show ?thesis
  proof (cases "w > h")
    case True
    have "Math_round (real (h * MAX_SIZE) / real w) \<le> int MAX_SIZE"
      using True by (intro Math_round_le_nat scaled_le_max) auto
    then show ?thesis using big True by (simp add: resize_long_edge_def)
  next
    case False
    with big have hbig: "MAX_SIZE < h" by auto
    have "Math_round (real (w * MAX_SIZE) / real h) \<le> int MAX_SIZE"
      using False hbig by (intro Math_round_le_nat scaled_le_max) auto
    then show ?thesis using big False by (simp add: resize_long_edge_def)
  qed
qed

lemma exact_scale_small:
  assumes "0 < max w h" "max w h \<le> MAX_SIZE"
  shows "exact_scale w h = 1"
proof -
  have "real (max w h) \<le> real MAX_SIZE" using assms(2) by (simp only: of_nat_le_iff)
  moreover have "0 < real (max w h)" using assms(1) by (simp only: of_nat_0_less_iff)
  ultimately have "1 \<le> real MAX_SIZE / real (max w h)" by (simp add: pos_le_divide_eq)
  then show ?thesis unfolding exact_scale_def by simp
qed

lemma exact_scale_big:
  assumes "MAX_SIZE < max w h"
  shows "exact_scale w h = real MAX_SIZE / real (max w h)"
proof -
  have "real MAX_SIZE < real (max w h)" using assms by (simp only: of_nat_less_iff)
  then have "real MAX_SIZE / real (max w h) \<le> 1" by (simp add: MAX_SIZE_def)
  then show ?thesis unfolding exact_scale_def by simp
qed

lemma nat_round_close:
  assumes "0 \<le> x"
  shows "\<bar>real (nat (Math_round x)) - x\<bar> \<le> 1 / 2"
proof -
  have "real (nat (Math_round x)) = real_of_int (Math_round x)"
    using Math_round_nonneg[OF assms] by simp
  then show ?thesis using Math_round_lower[of x] Math_round_upper[of x] by linarith
qed

lemma resize_close:
  assumes "0 < w" "0 < h"
  shows "\<bar>real (fst (resize_long_edge w h)) - exact_scale w h * real w\<bar> \<le> 1 / 2 \<and>
   \<bar>real (snd (resize_long_edge w h)) - exact_scale w h * real h\<bar> \<le> 1 / 2"
proof (cases "w > MAX_SIZE \<or> h > MAX_SIZE")
  case False
  then have "max w h \<le> MAX_SIZE" by auto
  moreover have "0 < max w h" using assms by simp
  ultimately have "exact_scale w h = 1" by (rule exact_scale_small[rotated])
  then show ?thesis using False by (simp add: resize_long_edge_def)
next
  case big: True
  then have "MAX_SIZE < max w h" by auto
  then have sc: "exact_scale w h = real MAX_SIZE / real (max w h)" by (rule exact_scale_big)
  show ?thesis
  proof (cases "w > h")
    case True
    with big have wbig: "MAX_SIZE < w" by auto
    let ?x = "real (h * MAX_SIZE) / real w"
    have m: "max w h = w" using True by simp
    have e: "exact_scale w h * real h = ?x" "exact_scale w h * real w = real MAX_SIZE"
      using wbig by (simp_all add: sc m)
    have "\<bar>real (nat (Math_round ?x)) - ?x\<bar> \<le> 1 / 2" by (rule nat_round_close) simp
    then show ?thesis using big True by (simp add: resize_long_edge_def e)
  next
    case False
    with big have hbig: "MAX_SIZE < h" by auto
    let ?x = "real (w * MAX_SIZE) / real h"
    have m: "max w h = h" using False by simp
    have e: "exact_scale w h * real w = ?x" "exact_scale w h * real h = real MAX_SIZE"
      using hbig by (simp_all add: sc m)
    have "\<bar>real (nat (Math_round ?x)) - ?x\<bar> \<le> 1 / 2" by (rule nat_round_close) simp
    then show ?thesis using big False by (simp add: resize_long_edge_def e)
  qed
qed

lemma force_even_close: "\<bar>real (force_even n) - real n\<bar> \<le> 1 \<and> real (force_even n) \<le> real n"
  using force_even_le[of n] force_even_ge[of n] by linarith

text \<open>
  Claim C1. For every image of positive width and height, both dimensions computed for the
  MP4 output are even, the longer one is at most 1280, and the aspect ratio is kept up to
  rounding: with the one scale factor \<^const>\<open>exact_scale\<close> for both axes, each computed
  dimension lies between the exactly scaled one minus 3/2 and the exactly scaled one plus 1/2
  (half a pixel from \<^verbatim>\<open>Math.round\<close>, one more pixel down from forcing it even).
\<close>

theorem mp4_dimensions_even_bounded_aspect:
  assumes "0 < w" and "0 < h" and "mp4_dimensions w h = (W, H)"
  shows "even W \<and> even H \<and> max W H \<le> 1280 \<and>
         exact_scale w h * real w - 3 / 2 \<le> real W \<and> real W \<le> exact_scale w h * real w + 1 / 2 \<and>
         exact_scale w h * real h - 3 / 2 \<le> real H \<and> real H \<le> exact_scale w h * real h + 1 / 2"
proof -
  obtain rw rh where r: "resize_long_edge w h = (rw, rh)" by (cases "resize_long_edge w h")
  with assms(3) have W: "W = force_even rw" and H: "H = force_even rh"
    by (simp_all add: mp4_dimensions_def)
  have ev: "even W" "even H" by (simp_all add: W H force_even_even)
  have "rw \<le> MAX_SIZE" "rh \<le> MAX_SIZE" using resize_bounded[of w h] r by simp_all
  then have "W \<le> 1280" "H \<le> 1280"
    using force_even_le[of rw] force_even_le[of rh] by (simp_all add: W H MAX_SIZE_def)
  then have bd: "max W H \<le> 1280" by simp
  have cw: "\<bar>real rw - exact_scale w h * real w\<bar> \<le> 1 / 2"
    and ch: "\<bar>real rh - exact_scale w h * real h\<bar> \<le> 1 / 2"
    using resize_close[OF assms(1,2)] r by simp_all
  have aw: "exact_scale w h * real w - 3 / 2 \<le> real W \<and> real W \<le> exact_scale w h * real w + 1 / 2"
    using cw force_even_close[of rw] unfolding W by linarith
  have ah: "exact_scale w h * real h - 3 / 2 \<le> real H \<and> real H \<le> exact_scale w h * real h + 1 / 2"
    using ch force_even_close[of rh] unfolding H by linarith
  show ?thesis using ev bd aw ah by simp
qed

lemma exact_scale_4000_3000: "exact_scale 4000 3000 = 8 / 25"
  by (simp add: exact_scale_def MAX_SIZE_def)

lemma mp4_dimensions_4000_3000: "mp4_dimensions 4000 3000 = (1280, 960)"
  by (simp add: mp4_dimensions_def resize_long_edge_def force_even_def MAX_SIZE_def Math_round_def)

theorem mp4_dimensions_even_bounded_aspect_witness:
  "mp4_dimensions 4000 3000 = (1280, 960) \<and> even (1280::nat) \<and> even (960::nat) \<and>
   max (1280::nat) 960 \<le> 1280 \<and> exact_scale 4000 3000 = 8 / 25"
  using mp4_dimensions_even_bounded_aspect[of 4000 3000 1280 960]
  by (simp add: mp4_dimensions_4000_3000 exact_scale_4000_3000)

text \<open>
  Claim C9. The computed width is at most the input width and the computed height at most
  the input height, for every input; and an input whose dimensions are both even and at most
  1280 is returned as it is.
\<close>

theorem mp4_dimensions_never_enlarge:
  "fst (mp4_dimensions w h) \<le> w \<and> snd (mp4_dimensions w h) \<le> h \<and>
   (even w \<and> even h \<and> w \<le> 1280 \<and> h \<le> 1280 \<longrightarrow> mp4_dimensions w h = (w, h))"
proof -
  obtain rw rh where r: "resize_long_edge w h = (rw, rh)" by (cases "resize_long_edge w h")
  have d: "mp4_dimensions w h = (force_even rw, force_even rh)"
    by (simp add: mp4_dimensions_def r)
  have "rw \<le> w" "rh \<le> h" using resize_no_enlarge[of w h] r by simp_all
  then have le: "force_even rw \<le> w" "force_even rh \<le> h"
    using force_even_le[of rw] force_even_le[of rh] by linarith+
  have idem: "mp4_dimensions w h = (w, h)" if "even w" "even h" "w \<le> 1280" "h \<le> 1280"
    using that by (simp add: mp4_dimensions_def resize_long_edge_def MAX_SIZE_def force_even_id)
  show ?thesis using le idem by (simp add: d)
qed

theorem mp4_dimensions_never_enlarge_witness:
  "fst (mp4_dimensions 4000 3000) \<le> 4000 \<and> snd (mp4_dimensions 4000 3000) \<le> 3000 \<and>
   even (640::nat) \<and> even (480::nat) \<and> (640::nat) \<le> 1280 \<and> (480::nat) \<le> 1280 \<and>
   mp4_dimensions 640 480 = (640, 480)"
  using mp4_dimensions_never_enlarge[of 4000 3000] mp4_dimensions_never_enlarge[of 640 480]
  by simp


section \<open>Properties of the display name\<close>

lemma replace_ext_no_dot: "CHR ''.'' \<notin> set s \<Longrightarrow> replace_ext s = s"
  by (induction s) auto

lemma list_all_ext_char: "list_all ext_char s \<longleftrightarrow> CHR ''.'' \<notin> set s \<and> CHR ''/'' \<notin> set s"
  by (induction s) (auto simp: ext_char_def)

lemma replace_ext_last_dot:
  assumes "CHR ''.'' \<notin> set ext"
  shows "replace_ext (base @ CHR ''.'' # ext) =
         (if ext \<noteq> [] \<and> CHR ''/'' \<notin> set ext then base else base @ CHR ''.'' # ext)"
proof (induction base)
  case Nil
  show ?case using assms by (simp add: list_all_ext_char replace_ext_no_dot)
next
  case (Cons c cs)
  have nm: "\<not> ext_regex_matches (c # cs @ CHR ''.'' # ext)"
    by (simp add: list_all_ext_char ext_char_def)
  have step: "replace_ext (c # cs @ CHR ''.'' # ext) = c # replace_ext (cs @ CHR ''.'' # ext)"
    using nm by (simp only: replace_ext.simps if_False)
  show ?case unfolding append_Cons step Cons.IH by simp
qed

lemma last_dot_split_no_dot: "CHR ''.'' \<notin> set s \<Longrightarrow> last_dot_split s = None"
  by (simp add: last_dot_split_def)

lemma last_dot_split_last_dot:
  assumes "CHR ''.'' \<notin> set ext"
  shows "last_dot_split (base @ CHR ''.'' # ext) = Some (base, ext)"
proof -
  let ?P = "\<lambda>c. c \<noteq> CHR ''.''"
  have "takeWhile ?P (rev ext @ CHR ''.'' # rev base) = rev ext @ takeWhile ?P (CHR ''.'' # rev base)"
    by (rule takeWhile_append2) (use assms in auto)
  moreover have "dropWhile ?P (rev ext @ CHR ''.'' # rev base) = dropWhile ?P (CHR ''.'' # rev base)"
    by (rule dropWhile_append2) (use assms in auto)
  ultimately show ?thesis by (simp add: last_dot_split_def)
qed

text \<open>The regular expression of the source removes exactly the final extension.\<close>

lemma replace_ext_strips_final_extension: "replace_ext s = strip_final_extension s"
proof (cases "CHR ''.'' \<in> set s")
  case False
  then show ?thesis
    by (simp add: replace_ext_no_dot strip_final_extension_def last_dot_split_no_dot)
next
  case True
  then obtain base ext where s: "s = base @ CHR ''.'' # ext" and e: "CHR ''.'' \<notin> set ext"
    using split_list_last by fastforce
  show ?thesis unfolding s
    by (simp add: replace_ext_last_dot[OF e] last_dot_split_last_dot[OF e] strip_final_extension_def)
qed

text \<open>The edge cases of the pattern, for the record.\<close>

lemma replace_ext_examples:
  "replace_ext ''archive.tar.gz'' = ''archive.tar''"
  "replace_ext ''photo'' = ''photo''"
  "replace_ext ''photo.'' = ''photo.''"
  "replace_ext ''.bashrc'' = []"
  by (simp_all add: ext_char_def)


section \<open>Properties of the two conversions\<close>

lemma run_quiet: "run (\<lambda>c. None) cs = (cs, None)"
  by (induction cs) simp_all

lemma run_None: "run t cs = (tr, None) \<Longrightarrow> tr = cs"
  by (induction cs arbitrary: tr) (auto split: option.splits prod.splits)

lemma run_no_throw: "\<forall>c \<in> set cs. t c = None \<Longrightarrow> run t cs = (cs, None)"
  by (induction cs) simp_all

lemma run_throws: "\<exists>c \<in> set cs. t c \<noteq> None \<Longrightarrow> \<exists>e. snd (run t cs) = Some e"
proof (induction cs)
  case Nil
  then show ?case by simp
next
  case (Cons a cs)
  show ?case
  proof (cases "t a")
    case (Some e)
    then show ?thesis by simp
  next
    case None
    with Cons.prems have "\<exists>c \<in> set cs. t c \<noteq> None" by auto
    then obtain e where "snd (run t cs) = Some e" using Cons.IH by blast
    then show ?thesis using None by (cases "run t cs") simp
  qed
qed

lemma run_first: "take (Suc 0) (fst (run t (c # cs))) = [c]"
  by (cases "run t cs") (simp split: option.splits)

lemma fst_convertImageToMP4:
  assumes "image_data f = Image w h" and "mp4_dimensions w h = (W, H)"
  shows "fst (convertImageToMP4 b f) = fst (run (throws b) (mp4_calls f W H))"
proof (cases "run (throws b) (mp4_calls f W H)")
  case (Pair tr r)
  then show ?thesis by (cases r) (simp_all add: convertImageToMP4_def assms)
qed

lemma mp4_calls_first: "\<exists>cs. mp4_calls f W H = NewMuxer W H # cs"
  by (simp add: mp4_calls_def Let_def)

lemma mp4_dimensions_1_1: "mp4_dimensions 1 1 = (0, 0)"
  by (simp add: mp4_dimensions_def resize_long_edge_def force_even_def MAX_SIZE_def)

text \<open>
  On the MP4 path every failure the model has rejects the promise: the \<^verbatim>\<open>error\<close> event of
  the image, and an exception of any call made inside \<^verbatim>\<open>img.onload\<close>.
\<close>

lemma convertImageToMP4_failure_rejects:
  assumes "image_data f = Undecodable \<or>
           (\<exists>w h W H. image_data f = Image w h \<and> mp4_dimensions w h = (W, H) \<and>
              (\<exists>c \<in> set (mp4_calls f W H). throws b c \<noteq> None))"
  shows "\<exists>e. snd (convertImageToMP4 b f) = Rejected e"
  using assms
proof
  assume "image_data f = Undecodable"
  then show ?thesis by (simp add: convertImageToMP4_def)
next
  assume "\<exists>w h W H. image_data f = Image w h \<and> mp4_dimensions w h = (W, H) \<and>
              (\<exists>c \<in> set (mp4_calls f W H). throws b c \<noteq> None)"
  then obtain w h W H where i: "image_data f = Image w h" and d: "mp4_dimensions w h = (W, H)"
    and t: "\<exists>c \<in> set (mp4_calls f W H). throws b c \<noteq> None" by blast
  obtain tr r where r: "run (throws b) (mp4_calls f W H) = (tr, r)"
    by (cases "run (throws b) (mp4_calls f W H)")
  obtain e where "r = Some e" using run_throws[OF t] r by auto
  then show ?thesis by (simp add: convertImageToMP4_def i d r)
qed

text \<open>When no call throws, the promise resolves and the trace is the whole list of calls.\<close>

lemma convertImageToMP4_no_throw:
  assumes "image_data f = Image w h" and "mp4_dimensions w h = (W, H)"
    and "\<forall>c \<in> set (mp4_calls f W H). throws b c = None"
  shows "convertImageToMP4 b f =
           (mp4_calls f W H,
            Resolved \<lparr>id_token = random_token b f,
                      name = replace_ext (file_name f) @ ''.mp4'',
                      url = blob_url b f\<rparr>)"
  using run_no_throw[OF assms(3)] by (simp add: convertImageToMP4_def assms(1,2))

text \<open>On the WebM path no input and no browser ever reject the promise.\<close>

lemma convertImageToVideo_never_rejects: "snd (convertImageToVideo b f) \<noteq> Rejected e"
  by (simp add: convertImageToVideo_def split: decode_result.splits prod.splits option.splits)

lemma convertImageToMP4_photo:
  "convertImageToMP4 quiet_browser photo = (mp4_calls photo 1280 960, Resolved photo_mp4)"
  by (simp add: convertImageToMP4_def photo_def quiet_browser_def run_quiet photo_mp4_def
        mp4_dimensions_4000_3000 ext_char_def)

lemma convertImageToVideo_photo:
  "convertImageToVideo quiet_browser photo = (webm_calls photo 4000 3000, Resolved photo_webm)"
  by (simp add: convertImageToVideo_def photo_def quiet_browser_def run_quiet photo_webm_def
        ext_char_def)

lemma convertImageToMP4_pixel:
  "snd (convertImageToMP4 quiet_browser pixel) = Resolved pixel_mp4"
  by (simp add: convertImageToMP4_def pixel_def quiet_browser_def run_quiet pixel_mp4_def
        ext_char_def split: prod.splits)

lemma convertImageToMP4_broken:
  "convertImageToMP4 b broken = ([], Rejected ErrorEvent)"
  by (simp add: convertImageToMP4_def broken_def)

text \<open>
  Claim C2. Any failure of a per-file conversion rejects its promise, on the MP4 path and on
  the WebM path. The WebM path breaks it: for a file the browser cannot decode,
  \<^const>\<open>convertImageToVideo\<close> leaves its promise pending, where \<^const>\<open>convertImageToMP4\<close>
  rejects.
\<close>

theorem webm_decode_failure_leaves_promise_pending:
  "convertImageToVideo b broken = ([], Pending) \<and>
   convertImageToMP4 b broken = ([], Rejected ErrorEvent)"
  by (simp add: convertImageToVideo_def convertImageToMP4_def broken_def)

text \<open>
  Claim C5. The name of the produced record, which the page shows and also gives to the
  \<^verbatim>\<open>download\<close> attribute of the link, is the name of the file with its final extension
  stripped, followed by \<^verbatim>\<open>.mp4\<close> on the MP4 path and by \<^verbatim>\<open>.webm\<close> on the WebM path.
\<close>

theorem display_name_strips_extension:
  "(snd (convertImageToMP4 b f) = Resolved v \<longrightarrow>
      name v = strip_final_extension (file_name f) @ ''.mp4'') \<and>
   (snd (convertImageToVideo b f) = Resolved v' \<longrightarrow>
      name v' = strip_final_extension (file_name f) @ ''.webm'')"
  by (auto simp: convertImageToMP4_def convertImageToVideo_def replace_ext_strips_final_extension
           split: decode_result.splits prod.splits option.splits)

lemma strip_final_extension_photo: "strip_final_extension (file_name photo) = ''photo''"
  by (simp add: strip_final_extension_def last_dot_split_def photo_def)

theorem display_name_strips_extension_witness:
  "snd (convertImageToMP4 quiet_browser photo) = Resolved photo_mp4 \<and>
   snd (convertImageToVideo quiet_browser photo) = Resolved photo_webm \<and>
   name photo_mp4 = ''photo.mp4'' \<and> name photo_webm = ''photo.webm'' \<and>
   strip_final_extension (file_name photo) = ''photo''"
  using display_name_strips_extension[of quiet_browser photo photo_mp4 photo_webm]
  by (simp add: convertImageToMP4_photo convertImageToVideo_photo strip_final_extension_photo)

text \<open>Every run of the MP4 conversion that resolves has made the two \<^verbatim>\<open>encode\<close> calls.\<close>

lemma resolved_mp4_trace_has_two_frames:
  assumes "image_data f = Image w h" and "convertImageToMP4 b f = (tr, Resolved v)"
  shows "\<exists>frame frameEnd.
           filter is_Encode tr = [Encode frame True, Encode frameEnd False] \<and>
           frame_pixels frame = frame_pixels frameEnd \<and>
           frame_pixels frame = Drawn f (fst (mp4_dimensions w h)) (snd (mp4_dimensions w h)) \<and>
           timestamp frame = 0 \<and> timestamp frameEnd = 1000000 \<and>
           filter is_Encode (takeWhile (\<lambda>c. c \<noteq> Flush) tr) = [Encode frame True, Encode frameEnd False] \<and>
           take 2 (dropWhile (\<lambda>c. c \<noteq> Flush) tr) = [Flush, Finalize]"
proof -
  obtain W H where d: "mp4_dimensions w h = (W, H)" by (cases "mp4_dimensions w h")
  obtain tr' r where r: "run (throws b) (mp4_calls f W H) = (tr', r)"
    by (cases "run (throws b) (mp4_calls f W H)")
  from assms(2) have "r = None" and "tr' = tr"
    by (auto simp: convertImageToMP4_def assms(1) d r split: option.splits)
  with r have tr: "tr = mp4_calls f W H" using run_None by blast
  show ?thesis unfolding tr d
    by (simp add: mp4_calls_def Let_def new_VideoFrame_def drawImage_def new_canvas_def)
qed

text \<open>
  Claim C6, as stated: for every image that is decoded, the MP4 pipeline encodes exactly two
  frames before the flush and the finalisation. The calls that come before the first
  \<^verbatim>\<open>encode\<close> are inside the \<^verbatim>\<open>try\<close> block and may throw: with a decoded image of
  4000 by 3000 and an encoder that refuses the configuration, the conversion rejects after
  three calls and no frame is encoded.
\<close>

theorem decoded_image_without_encoder_counterexample:
  "image_data photo = Image 4000 3000 \<and>
   convertImageToMP4 no_avc_browser photo =
     ([NewMuxer 1280 960, NewVideoEncoder, Configure 1280 960 2000000 1],
      Rejected (Exception ''NotSupportedError'')) \<and>
   filter is_Encode (fst (convertImageToMP4 no_avc_browser photo)) = []"
proof -
  have i: "image_data photo = Image 4000 3000" by (simp add: photo_def)
  have r: "run configure_throws (mp4_calls photo 1280 960) =
        ([NewMuxer 1280 960, NewVideoEncoder, Configure 1280 960 2000000 1],
         Some (Exception ''NotSupportedError''))"
    by (simp add: mp4_calls_def Let_def)
  have c: "convertImageToMP4 no_avc_browser photo =
     ([NewMuxer 1280 960, NewVideoEncoder, Configure 1280 960 2000000 1],
      Rejected (Exception ''NotSupportedError''))"
    by (simp add: convertImageToMP4_def i no_avc_browser_def mp4_dimensions_4000_3000 r)
  show ?thesis unfolding c using i by simp
qed

text \<open>
  Claim C6, amended. For every image that is decoded and for which none of the calls of the
  pipeline throws, the conversion resolves, and it has made exactly two \<^verbatim>\<open>encode\<close> calls;
  the two frames hold the same pixels (the image drawn at the computed size), their
  timestamps are 0 and 1000000 microseconds, the first is encoded as a key frame, and both
  calls come before the flush of the encoder, which the finalisation of the muxer follows at
  once.
\<close>

theorem mp4_encodes_two_identical_frames:
  assumes "image_data f = Image w h" and "mp4_dimensions w h = (W, H)"
    and "\<forall>c \<in> set (mp4_calls f W H). throws b c = None"
  shows "\<exists>tr v frame frameEnd.
           convertImageToMP4 b f = (tr, Resolved v) \<and>
           filter is_Encode tr = [Encode frame True, Encode frameEnd False] \<and>
           frame_pixels frame = frame_pixels frameEnd \<and>
           frame_pixels frame = Drawn f W H \<and>
           timestamp frame = 0 \<and> timestamp frameEnd = 1000000 \<and>
           filter is_Encode (takeWhile (\<lambda>c. c \<noteq> Flush) tr) = [Encode frame True, Encode frameEnd False] \<and>
           take 2 (dropWhile (\<lambda>c. c \<noteq> Flush) tr) = [Flush, Finalize]"
proof -
  let ?v = "\<lparr>id_token = random_token b f, name = replace_ext (file_name f) @ ''.mp4'',
             url = blob_url b f\<rparr>"
  let ?frame = "new_VideoFrame (drawImage (new_canvas W H) f W H) 0"
  let ?frameEnd = "new_VideoFrame (drawImage (new_canvas W H) f W H) 1000000"
  have c: "convertImageToMP4 b f = (mp4_calls f W H, Resolved ?v)"
    by (rule convertImageToMP4_no_throw[OF assms])
  have "filter is_Encode (mp4_calls f W H) = [Encode ?frame True, Encode ?frameEnd False] \<and>
        frame_pixels ?frame = frame_pixels ?frameEnd \<and>
        frame_pixels ?frame = Drawn f W H \<and>
        timestamp ?frame = 0 \<and> timestamp ?frameEnd = 1000000 \<and>
        filter is_Encode (takeWhile (\<lambda>c. c \<noteq> Flush) (mp4_calls f W H)) =
          [Encode ?frame True, Encode ?frameEnd False] \<and>
        take 2 (dropWhile (\<lambda>c. c \<noteq> Flush) (mp4_calls f W H)) = [Flush, Finalize]"
    by (simp add: mp4_calls_def Let_def new_VideoFrame_def drawImage_def new_canvas_def)
  with c show ?thesis by blast
qed

lemma quiet_mp4_calls: "\<forall>c \<in> set (mp4_calls photo 1280 960). throws quiet_browser c = None"
  by (simp add: quiet_browser_def)

theorem mp4_encodes_two_identical_frames_witness:
  "image_data photo = Image 4000 3000 \<and> mp4_dimensions 4000 3000 = (1280, 960) \<and>
   list_all (\<lambda>c. throws quiet_browser c = None) (mp4_calls photo 1280 960) \<and>
   (\<exists>tr v frame frameEnd.
      convertImageToMP4 quiet_browser photo = (tr, Resolved v) \<and>
      filter is_Encode tr = [Encode frame True, Encode frameEnd False] \<and>
      frame_pixels frame = frame_pixels frameEnd \<and>
      frame_pixels frame = Drawn photo 1280 960 \<and>
      timestamp frame = 0 \<and> timestamp frameEnd = 1000000)"
proof -
  have i: "image_data photo = Image 4000 3000" by (simp add: photo_def)
  have q: "list_all (\<lambda>c. throws quiet_browser c = None) (mp4_calls photo 1280 960)"
    using quiet_mp4_calls by (simp add: list_all_iff)
  from mp4_encodes_two_identical_frames[OF i mp4_dimensions_4000_3000 quiet_mp4_calls]
  have "\<exists>tr v frame frameEnd.
      convertImageToMP4 quiet_browser photo = (tr, Resolved v) \<and>
      filter is_Encode tr = [Encode frame True, Encode frameEnd False] \<and>
      frame_pixels frame = frame_pixels frameEnd \<and>
      frame_pixels frame = Drawn photo 1280 960 \<and>
      timestamp frame = 0 \<and> timestamp frameEnd = 1000000"
    by blast
  with i q show ?thesis using mp4_dimensions_4000_3000 by blast
qed

text \<open>
  The part of the WebM path that is code: the recorder is started, a timer of 1000
  milliseconds is set, and its callback stops the recorder.
\<close>

lemma webm_timer_between_start_and_stop:
  assumes "convertImageToVideo b f = (tr, Resolved v)"
  shows "\<exists>pre post. tr = pre @ [RecorderStart, SetTimeout 1000, RecorderStop] @ post"
proof -
  obtain w h where i: "image_data f = Image w h"
    using assms by (cases "image_data f") (simp_all add: convertImageToVideo_def)
  obtain tr' r where r: "run (throws b) (webm_calls f w h) = (tr', r)"
    by (cases "run (throws b) (webm_calls f w h)")
  from assms have "r = None" and "tr' = tr"
    by (auto simp: convertImageToVideo_def i r split: option.splits)
  with r have tr: "tr = webm_calls f w h" using run_None by blast
  have "tr = [SetCanvasSize w h, GetContext2d, DrawImage f w h, CaptureStream 1,
              NewMediaRecorder ''video/webm''] @
             [RecorderStart, SetTimeout 1000, RecorderStop] @
             [NewBlob ''video/webm'', CreateObjectURL]"
    unfolding tr by (simp add: webm_calls_def)
  then show ?thesis by blast
qed

text \<open>
  Claim C10. The computed dimensions can be zero: an image of 1 by 1 pixel gets 0 by 0, the
  muxer is constructed with these zeros whatever the browser does, and where the two
  constructors succeed the encoder is configured with them.
\<close>

theorem odd_unit_dimension_becomes_zero:
  "mp4_dimensions 1 1 = (0, 0) \<and>
   image_data pixel = Image 1 1 \<and>
   take 1 (fst (convertImageToMP4 b pixel)) = [NewMuxer 0 0] \<and>
   take 3 (fst (convertImageToMP4 quiet_browser pixel)) =
     [NewMuxer 0 0, NewVideoEncoder, Configure 0 0 2000000 1]"
proof -
  have i: "image_data pixel = Image 1 1" by (simp add: pixel_def)
  obtain cs where cs: "mp4_calls pixel 0 0 = NewMuxer 0 0 # cs"
    using mp4_calls_first by blast
  have a: "take 1 (fst (convertImageToMP4 b pixel)) = [NewMuxer 0 0]"
    unfolding fst_convertImageToMP4[OF i mp4_dimensions_1_1] cs using run_first by simp
  have "fst (convertImageToMP4 quiet_browser pixel) = mp4_calls pixel 0 0"
    unfolding fst_convertImageToMP4[OF i mp4_dimensions_1_1]
    by (simp add: quiet_browser_def run_quiet)
  then have c: "take 3 (fst (convertImageToMP4 quiet_browser pixel)) =
     [NewMuxer 0 0, NewVideoEncoder, Configure 0 0 2000000 1]"
    by (simp add: mp4_calls_def Let_def)
  show ?thesis using a c i mp4_dimensions_1_1 by simp
qed


section \<open>Properties of the upload handler\<close>

text \<open>
  The hypothesis \<open>map (\<lambda>f. result_of (conv f)) fs = map Some vs\<close> says that every file of
  \<open>fs\<close> converts, the file at position \<open>i\<close> giving the record at position \<open>i\<close> of \<open>vs\<close>.
\<close>

lemma convert_loop_all_resolved:
  "map (\<lambda>f. result_of (conv f)) fs = map Some vs \<Longrightarrow>
   convert_loop conv fs acc = (acc @ vs, Resolved ())"
proof (induction fs arbitrary: acc vs)
  case Nil
  then show ?case by simp
next
  case (Cons f fs)
  then obtain v vs' where vs: "vs = v # vs'" and v: "result_of (conv f) = Some v"
    and rest: "map (\<lambda>f. result_of (conv f)) fs = map Some vs'"
    by (cases vs) auto
  from v have "conv f = Resolved v" by (cases "conv f") simp_all
  then show ?case using Cons.IH[OF rest, of "acc @ [v]"] by (simp add: vs)
qed

lemma convert_loop_stops:
  assumes "map (\<lambda>f. result_of (conv f)) pre = map Some vs" and "result_of (conv f) = None"
  shows "convert_loop conv (pre @ f # post) acc =
           (acc @ vs, case conv f of Rejected e \<Rightarrow> Rejected e | _ \<Rightarrow> Pending)"
  using assms(1)
proof (induction pre arbitrary: acc vs)
  case Nil
  then show ?case using assms(2) by (cases "conv f") simp_all
next
  case (Cons g pre)
  then obtain v vs' where vs: "vs = v # vs'" and v: "result_of (conv g) = Some v"
    and rest: "map (\<lambda>f. result_of (conv f)) pre = map Some vs'"
    by (cases vs) auto
  from v have "conv g = Resolved v" by (cases "conv g") simp_all
  then show ?case using Cons.IH[OF rest, of "acc @ [v]"] by (simp add: vs)
qed

lemma convert_loop_exact:
  "convert_loop conv fs acc = (nv, out) \<Longrightarrow>
   \<exists>vs. nv = acc @ vs \<and>
        map Some vs = takeWhile (\<lambda>r. r \<noteq> None) (map (\<lambda>f. result_of (conv f)) fs) \<and>
        (out = Resolved ()) = list_all (\<lambda>f. result_of (conv f) \<noteq> None) fs"
proof (induction fs arbitrary: acc)
  case Nil
  then show ?case by auto
next
  case (Cons f fs)
  show ?case
  proof (cases "conv f")
    case (Resolved v)
    with Cons.prems have "convert_loop conv fs (acc @ [v]) = (nv, out)" by simp
    from Cons.IH[OF this] obtain vs where "nv = (acc @ [v]) @ vs"
      and "map Some vs = takeWhile (\<lambda>r. r \<noteq> None) (map (\<lambda>f. result_of (conv f)) fs)"
      and "(out = Resolved ()) = list_all (\<lambda>f. result_of (conv f) \<noteq> None) fs" by blast
    then have "nv = acc @ (v # vs) \<and>
       map Some (v # vs) = takeWhile (\<lambda>r. r \<noteq> None) (map (\<lambda>f. result_of (conv f)) (f # fs)) \<and>
       (out = Resolved ()) = list_all (\<lambda>f. result_of (conv f) \<noteq> None) (f # fs)"
      using Resolved by simp
    then show ?thesis by blast
  next
    case (Rejected e)
    with Cons.prems show ?thesis by auto
  next
    case Pending
    with Cons.prems show ?thesis by auto
  qed
qed

lemma results_photo_pixel:
  "map (\<lambda>f. result_of (snd (convertImageToMP4 quiet_browser f))) [photo, pixel] =
   map Some [photo_mp4, pixel_mp4]"
  by (simp add: convertImageToMP4_photo convertImageToMP4_pixel)

lemma results_photo:
  "map (\<lambda>f. result_of (snd (convertImageToMP4 quiet_browser f))) [photo] = map Some [photo_mp4]"
  by (simp add: convertImageToMP4_photo)

lemma result_broken: "result_of (snd (convertImageToMP4 quiet_browser broken)) = None"
  by (simp add: convertImageToMP4_broken)

text \<open>
  Claim C3. When all \<open>N\<close> files of an upload convert, the handler adds exactly \<open>N\<close> entries to
  the result list, as one block in front of the entries that were there, in the order of the
  file list.
\<close>

theorem upload_prepends_in_order:
  assumes "map (\<lambda>f. result_of (conv f)) fs = map Some vs"
  shows "handleFileUpload conv (Some fs) st =
           (st\<lparr>videos := vs @ videos st, isProcessing := False\<rparr>, vs, Resolved ()) \<and>
         length vs = length fs \<and>
         length (videos (fst (handleFileUpload conv (Some fs) st))) = length fs + length (videos st) \<and>
         take (length fs) (videos (fst (handleFileUpload conv (Some fs) st))) = vs \<and>
         drop (length fs) (videos (fst (handleFileUpload conv (Some fs) st))) = videos st"
proof -
  have l: "length vs = length fs" using assms by (metis length_map)
  have h: "handleFileUpload conv (Some fs) st =
           (st\<lparr>videos := vs @ videos st, isProcessing := False\<rparr>, vs, Resolved ())"
    using convert_loop_all_resolved[OF assms, of "[]"] by (simp add: handleFileUpload_def)
  show ?thesis unfolding h using l by simp
qed

theorem upload_prepends_in_order_witness:
  "map (\<lambda>f. result_of (snd (convertImageToMP4 quiet_browser f))) [photo, pixel] =
     map Some [photo_mp4, pixel_mp4] \<and>
   videos (fst (handleFileUpload_mp4 quiet_browser (Some [photo, pixel]) gallery)) =
     photo_mp4 # pixel_mp4 # videos gallery"
  using upload_prepends_in_order[OF results_photo_pixel, of gallery] results_photo_pixel
  by (simp add: handleFileUpload_mp4_def)

text \<open>
  Claim C4, as stated: when a file of a batch fails, the entries of the files before it are
  still produced and kept in the result list. The handler does not do that: with a good file
  followed by an undecodable one, the record of the good file is not in the list afterwards.
\<close>

theorem earlier_result_not_retained_counterexample:
  "result_of (snd (convertImageToMP4 quiet_browser photo)) = Some photo_mp4 \<and>
   result_of (snd (convertImageToMP4 quiet_browser broken)) = None \<and>
   photo_mp4 \<notin> set (videos (fst (handleFileUpload_mp4 quiet_browser (Some [photo, broken]) gallery))) \<and>
   videos (fst (handleFileUpload_mp4 quiet_browser (Some [photo, broken]) gallery)) = videos gallery"
proof -
  have "fst (handleFileUpload_mp4 quiet_browser (Some [photo, broken]) gallery) =
        gallery\<lparr>isProcessing := True\<rparr>"
    by (simp add: handleFileUpload_mp4_def handleFileUpload_def convertImageToMP4_photo
          convertImageToMP4_broken)
  then show ?thesis
    by (simp add: convertImageToMP4_photo convertImageToMP4_broken gallery_def photo_mp4_def)
qed

text \<open>
  Claim C4, amended. When the files before a file all convert and that file does not (its
  promise rejects or is never settled), the loop stops there: the records of the earlier
  files have been produced, one per file, in the local array, the promise of the handler
  rejects with the same error or stays pending, the result list is exactly what it was before
  the upload, and the processing flag stays set.
\<close>

theorem failed_upload_discards_earlier_results:
  assumes "map (\<lambda>f. result_of (conv f)) pre = map Some vs" and "result_of (conv f) = None"
  shows "handleFileUpload conv (Some (pre @ f # post)) st =
           (st\<lparr>isProcessing := True\<rparr>, vs,
            case conv f of Rejected e \<Rightarrow> Rejected e | _ \<Rightarrow> Pending) \<and>
         length vs = length pre \<and>
         videos (fst (handleFileUpload conv (Some (pre @ f # post)) st)) = videos st"
proof -
  have l: "length vs = length pre" using assms(1) by (metis length_map)
  have h: "handleFileUpload conv (Some (pre @ f # post)) st =
           (st\<lparr>isProcessing := True\<rparr>, vs,
            case conv f of Rejected e \<Rightarrow> Rejected e | _ \<Rightarrow> Pending)"
    using convert_loop_stops[OF assms, of post "[]"] assms(2)
    by (cases "conv f") (simp_all add: handleFileUpload_def)
  show ?thesis unfolding h using l by simp
qed

theorem failed_upload_discards_earlier_results_witness:
  "map (\<lambda>f. result_of (snd (convertImageToMP4 quiet_browser f))) [photo] = map Some [photo_mp4] \<and>
   result_of (snd (convertImageToMP4 quiet_browser broken)) = None \<and>
   handleFileUpload_mp4 quiet_browser (Some [photo, broken, pixel]) gallery =
     (gallery\<lparr>isProcessing := True\<rparr>, [photo_mp4], Rejected ErrorEvent)"
  using failed_upload_discards_earlier_results[OF results_photo result_broken, of "[pixel]" gallery]
    results_photo result_broken
  by (simp add: handleFileUpload_mp4_def convertImageToMP4_broken)

text \<open>
  Claim C8. A record is created once for each file that converts and is not changed
  afterwards. The local array holds, in the order of the files, exactly the records that the
  conversions resolved with, one for each file up to the first one that does not convert
  (the loop stops there, so no later file is converted), and the handler completes exactly
  when every file converts. The result list after the handler is the list before it with that
  array put in front (when the handler completes) or with nothing put in front (when it does
  not), so every entry that was there is still there, unchanged and in its order.
\<close>

theorem existing_entries_unchanged:
  "(case handleFileUpload conv files st of (st', newVideos, outcome) \<Rightarrow>
      videos st' = (if outcome = Resolved () then newVideos else []) @ videos st \<and>
      map Some newVideos =
        takeWhile (\<lambda>r. r \<noteq> None)
          (map (\<lambda>f. result_of (conv f)) (case files of None \<Rightarrow> [] | Some fs \<Rightarrow> fs)) \<and>
      (outcome = Resolved ()) =
        list_all (\<lambda>f. result_of (conv f) \<noteq> None) (case files of None \<Rightarrow> [] | Some fs \<Rightarrow> fs))"
proof (cases files)
  case None
  then show ?thesis by (simp add: handleFileUpload_def)
next
  case (Some fs)
  obtain nv out where c: "convert_loop conv fs [] = (nv, out)" by (cases "convert_loop conv fs []")
  from convert_loop_exact[OF c]
  have p: "map Some nv = takeWhile (\<lambda>r. r \<noteq> None) (map (\<lambda>f. result_of (conv f)) fs)"
    and q: "(out = Resolved ()) = list_all (\<lambda>f. result_of (conv f) \<noteq> None) fs" by simp_all
  show ?thesis using p q by (cases out) (simp_all add: handleFileUpload_def Some c)
qed

end
